theory Spec2Isabelle
  imports
    Complex_Main
    "HOL-Library.Char_ord"
    "HOL-Library.List_Lexorder"
    "HOL-Library.Product_Lexorder"
begin

section \<open>JavaScript primitives used by the services\<close>

text \<open>
  Strings are byte strings. \<open>toLowerCase\<close> folds the ASCII letters and leaves every other
  character alone; text outside ASCII is therefore compared byte for byte.
\<close>

definition toLowerChar :: "char \<Rightarrow> char" where
  "toLowerChar c =
     (case map_of (zip ''ABCDEFGHIJKLMNOPQRSTUVWXYZ'' ''abcdefghijklmnopqrstuvwxyz'') c of
        None \<Rightarrow> c
      | Some d \<Rightarrow> d)"

definition toLowerCase :: "string \<Rightarrow> string" where
  "toLowerCase s = map toLowerChar s"

text \<open>\<open>s.startsWith(p)\<close> and \<open>s.includes(sub)\<close>.\<close>

fun startsWith :: "string \<Rightarrow> string \<Rightarrow> bool" where
  "startsWith s [] = True"
| "startsWith [] (p # ps) = False"
| "startsWith (c # cs) (p # ps) = (c = p \<and> startsWith cs ps)"

fun includes_str :: "string \<Rightarrow> string \<Rightarrow> bool" where
  "includes_str [] sub = (sub = [])"
| "includes_str (c # cs) sub = (startsWith (c # cs) sub \<or> includes_str cs sub)"

text \<open>
  \<open>xs.slice(start, end)\<close>: a negative position counts from the end, and both positions
  are clamped to the array.
\<close>

definition slice :: "'a list \<Rightarrow> int \<Rightarrow> int \<Rightarrow> 'a list" where
  "slice xs start stop =
     (let len = int (length xs);
          k = (if start < 0 then max (len + start) 0 else min start len);
          final = (if stop < 0 then max (len + stop) 0 else min stop len)
      in take (nat (max (final - k) 0)) (drop (nat k) xs))"

text \<open>
  \<open>x || d\<close> on an optional string and on an optional number: the default is taken when the
  left operand is falsy, that is \<open>undefined\<close>, the empty string, or the number 0.
\<close>

definition or_string :: "string option \<Rightarrow> string \<Rightarrow> string" where
  "or_string x d = (case x of None \<Rightarrow> d | Some s \<Rightarrow> if s = [] then d else s)"

definition or_number :: "'a::zero option \<Rightarrow> 'a \<Rightarrow> 'a" where
  "or_number x d = (case x of None \<Rightarrow> d | Some n \<Rightarrow> if n = 0 then d else n)"

section \<open>Data model (types/index.ts, config/env.ts)\<close>

record NewsArticle =
  art_id :: string
  title :: string
  url :: string
  content :: string
  summary :: string
  publishedDate :: string
  source :: string
  score :: rat
  timestamp :: int

record Config =
  newsCacheTtlDays :: int
  targetWebsites :: "string list"

section \<open>The Redis commands the store relies on\<close>

text \<open>
  A sorted set is kept as the list of its \<open>(score, member)\<close> pairs in ascending rank order:
  by score, then by member. Members are unique.
\<close>

type_synonym zset = "(int \<times> string) list"

definition zadd :: "zset \<Rightarrow> int \<Rightarrow> string \<Rightarrow> zset" where
  "zadd z sc m = insort (sc, m) (filter (\<lambda>e. snd e \<noteq> m) z)"

text \<open>
  Rank ranges (\<open>ZRANGE\<close>, \<open>ZREVRANGE\<close>, \<open>ZREMRANGEBYRANK\<close>): negative positions count from
  the end, the start is clamped to 0 and the stop to the last rank; the range is empty when
  it starts after its stop or beyond the set.
\<close>

definition rank_range :: "int \<Rightarrow> int \<Rightarrow> int \<Rightarrow> (nat \<times> nat) option" where
  "rank_range llen start stop =
     (let start1 = (if start < 0 then llen + start else start);
          stop1 = (if stop < 0 then llen + stop else stop);
          start2 = (if start1 < 0 then 0 else start1)
      in if start2 > stop1 \<or> start2 \<ge> llen then None
         else Some (nat start2, nat (if stop1 \<ge> llen then llen - 1 else stop1)))"

definition zrevrange :: "zset \<Rightarrow> int \<Rightarrow> int \<Rightarrow> string list" where
  "zrevrange z start stop =
     (case rank_range (int (length z)) start stop of
        None \<Rightarrow> []
      | Some (i, j) \<Rightarrow> take (Suc j - i) (drop i (rev (map snd z))))"

definition zremrangebyrank :: "zset \<Rightarrow> int \<Rightarrow> int \<Rightarrow> zset" where
  "zremrangebyrank z start stop =
     (case rank_range (int (length z)) start stop of
        None \<Rightarrow> z
      | Some (i, j) \<Rightarrow> take i z @ drop (Suc j) z)"

text \<open>
  The database: the article keys (\<open>defi_news:<id>\<close>, held here by id) with their optional
  expiry time, the index \<open>defi_news:index\<close>, and the value of \<open>defi_news:last_fetch\<close>.
  Article ids are UUIDs, so an article key never coincides with the other two keys.
  A stored article is the JSON text of the record; parsing it gives the record back.
\<close>

record redis =
  kv :: "string \<rightharpoonup> NewsArticle \<times> int option"
  news_index :: zset
  last_fetch :: "int option"

definition redis_get :: "int \<Rightarrow> redis \<Rightarrow> string \<Rightarrow> NewsArticle option" where
  "redis_get now r key =
     (case kv r key of
        None \<Rightarrow> None
      | Some (v, e) \<Rightarrow>
          (case e of None \<Rightarrow> Some v | Some t \<Rightarrow> if now < t then Some v else None))"

definition redis_set :: "string \<Rightarrow> NewsArticle \<Rightarrow> redis \<Rightarrow> redis" where
  "redis_set key v r = r\<lparr>kv := (kv r)(key \<mapsto> (v, None))\<rparr>"

definition redis_expire :: "int \<Rightarrow> string \<Rightarrow> int \<Rightarrow> redis \<Rightarrow> redis" where
  "redis_expire now key ttl r =
     (case redis_get now r key of
        None \<Rightarrow> r
      | Some v \<Rightarrow>
          if ttl \<le> 0 then r\<lparr>kv := (kv r)(key := None)\<rparr>
          else r\<lparr>kv := (kv r)(key \<mapsto> (v, Some (now + ttl)))\<rparr>)"

definition empty_redis :: redis where
  "empty_redis = \<lparr>kv = Map.empty, news_index = [], last_fetch = None\<rparr>"

section \<open>RedisService (services/redis.ts)\<close>

text \<open>
  Each method takes the time \<open>now\<close> (Unix seconds) at which its commands run. The methods
  below are the behaviour on a reachable server; a failed connection is an exception of
  every method and is modelled where the callers are.
\<close>

definition storeNewsArticle :: "Config \<Rightarrow> int \<Rightarrow> NewsArticle \<Rightarrow> redis \<Rightarrow> redis" where
  "storeNewsArticle cfg now article r =
     (let key = art_id article;
          ttl = newsCacheTtlDays cfg * 24 * 60 * 60;
          r1 = redis_set key article r;
          r2 = redis_expire now key ttl r1;
          r3 = r2\<lparr>news_index := zadd (news_index r2) (timestamp article) (art_id article)\<rparr>
      in r3\<lparr>news_index := zremrangebyrank (news_index r3) 0 (- 1001)\<rparr>)"

definition getNewsArticle :: "int \<Rightarrow> redis \<Rightarrow> string \<Rightarrow> NewsArticle option" where
  "getNewsArticle now r i = redis_get now r i"

definition getNewsArticles :: "int \<Rightarrow> redis \<Rightarrow> int \<Rightarrow> int \<Rightarrow> NewsArticle list" where
  "getNewsArticles now r limit offset =
     (let articleIds = zrevrange (news_index r) offset (offset + limit - 1)
      in if articleIds = [] then []
         else let articles = map (getNewsArticle now r) articleIds
              in map the (filter (\<lambda>article. article \<noteq> None) articles))"

definition searchNewsArticles :: "int \<Rightarrow> redis \<Rightarrow> string \<Rightarrow> int \<Rightarrow> NewsArticle list" where
  "searchNewsArticles now r query limit =
     (let articleIds = zrevrange (news_index r) 0 (- 1)
      in if articleIds = [] then []
         else let articles = map (getNewsArticle now r) articleIds;
                  filteredArticles =
                    filter (\<lambda>article.
                        let lowerQuery = toLowerCase query
                        in includes_str (toLowerCase (title article)) lowerQuery \<or>
                           includes_str (toLowerCase (content article)) lowerQuery \<or>
                           includes_str (toLowerCase (summary article)) lowerQuery)
                      (map the (filter (\<lambda>article. article \<noteq> None) articles))
              in slice filteredArticles 0 limit)"

definition storeLastFetchTime :: "int \<Rightarrow> redis \<Rightarrow> redis" where
  "storeLastFetchTime ts r = r\<lparr>last_fetch := Some ts\<rparr>"

definition getLastFetchTime :: "redis \<Rightarrow> int" where
  "getLastFetchTime r = (case last_fetch r of None \<Rightarrow> 0 | Some t \<Rightarrow> t)"

definition articleExists :: "int \<Rightarrow> redis \<Rightarrow> string \<Rightarrow> bool" where
  "articleExists now r t =
     (let articleIds = zrevrange (news_index r) 0 (- 1)
      in if articleIds = [] then False
         else let articles = map (getNewsArticle now r) articleIds
              in list_ex (\<lambda>article. toLowerCase (title article) = toLowerCase t)
                   (map the (filter (\<lambda>article. article \<noteq> None) articles)))"

section \<open>Providers, environment and process state\<close>

text \<open>
  The Tavily client is an external collaborator. A search answers with an error message or
  with a result list, an extraction with an error message, with no usable response
  (\<open>None\<close>: the response or its \<open>results\<close> field is missing), or with a result list.
\<close>

record SearchResult =
  r_title :: string
  r_url :: string
  r_content :: string
  r_snippet :: "string option"
  r_publishedDate :: "string option"
  r_score :: "rat option"

record SearchOptions =
  opt_searchDepth :: string
  opt_maxResults :: int
  opt_includeDomains :: "string list"
  opt_includeRawContent :: bool
  opt_time_range :: "string option"
  opt_topic :: "string option"

record ExtractResult =
  x_title :: string
  x_content :: string
  x_publishedDate :: "string option"

datatype provider_call = Search string SearchOptions | Extract "string list"

datatype error = Error string

text \<open>
  What one uninterrupted stretch of execution sees of the outside world: the configuration,
  the clock (\<open>Math.floor(Date.now() / 1000)\<close> and \<open>new Date().toISOString()\<close>), whether
  the Redis connection works, \<open>new URL(u).hostname\<close> (\<open>None\<close> when the constructor throws),
  the UUID generator, and the provider's answers. A tool handler and one query of a sweep
  are each taken as one such stretch: one clock reading, and a connection that is up or
  down throughout.
\<close>

record env =
  cfg :: Config
  time_now :: int
  time_iso :: string
  redis_up :: bool
  url_hostname :: "string \<Rightarrow> string option"
  randomUUID :: "nat \<Rightarrow> string"
  tvly_search :: "string \<Rightarrow> SearchOptions \<Rightarrow> string + SearchResult list"
  tvly_extract :: "string list \<Rightarrow> string + ExtractResult list option"

text \<open>
  The program counter of a \<open>fetchLatestNews\<close> activation that has passed the guard: before
  the marker is written, or inside the loop with the queries still to process.
\<close>

datatype sweep_pc = AtStart | AtQueries "string list"

text \<open>
  The process state: the database, the scheduler's flag, the activations of
  \<open>fetchLatestNews\<close> that are suspended at an \<open>await\<close>, the log of provider calls made so
  far, and the number of UUIDs drawn.
\<close>

record sys =
  store :: redis
  isRunning :: bool
  sweeps :: "sweep_pc list"
  provider_calls :: "provider_call list"
  uuid_count :: nat

definition redis_error :: string where
  "redis_error = ''Connection is closed.''"

section \<open>Ingestion (services/news-fetcher.ts, index.ts)\<close>

text \<open>
  The article literal that \<open>processQuery\<close> and \<open>handleTargetedSearch\<close> both build from a
  provider result. \<open>new URL\<close> throws on a malformed url.
\<close>

definition buildArticle :: "env \<Rightarrow> string \<Rightarrow> SearchResult \<Rightarrow> error + NewsArticle" where
  "buildArticle e uid result =
     (case url_hostname e (r_url result) of
        None \<Rightarrow> Inl (Error ''Invalid URL'')
      | Some h \<Rightarrow>
          Inr \<lparr>art_id = uid,
               title = r_title result,
               url = r_url result,
               content = r_content result,
               summary = or_string (r_snippet result) (take 300 (r_content result) @ ''...''),
               publishedDate = or_string (r_publishedDate result) (time_iso e),
               source = h,
               score = or_number (r_score result) (1 / 2),
               timestamp = time_now e\<rparr>)"

text \<open>
  The loop over \<open>response.results\<close>, the same in both callers: skip a result whose title
  exists, otherwise build the article and store it. It returns the articles stored
  (\<open>handleTargetedSearch\<close> collects them, \<open>processQuery\<close> does not) or the exception that
  ended it, and the state reached.
\<close>

fun storeResults :: "env \<Rightarrow> SearchResult list \<Rightarrow> sys \<Rightarrow> (error + NewsArticle list) \<times> sys" where
  "storeResults e [] s = (Inr [], s)"
| "storeResults e (result # rest) s =
     (if \<not> redis_up e then (Inl (Error redis_error), s)
      else if articleExists (time_now e) (store s) (r_title result) then storeResults e rest s
      else
        let s1 = s\<lparr>uuid_count := Suc (uuid_count s)\<rparr>
        in case buildArticle e (randomUUID e (uuid_count s)) result of
             Inl err \<Rightarrow> (Inl err, s1)
           | Inr article \<Rightarrow>
               let s2 = s1\<lparr>store := storeNewsArticle (cfg e) (time_now e) article (store s1)\<rparr>
               in case storeResults e rest s2 of
                    (Inl err, s3) \<Rightarrow> (Inl err, s3)
                  | (Inr articles, s3) \<Rightarrow> (Inr (article # articles), s3))"

definition processQuery :: "env \<Rightarrow> string \<Rightarrow> sys \<Rightarrow> sys" where
  "processQuery e query s =
     (let opts = \<lparr>opt_searchDepth = ''advanced'',
                  opt_maxResults = 10,
                  opt_includeDomains = targetWebsites (cfg e),
                  opt_includeRawContent = True,
                  opt_time_range = Some ''week'',
                  opt_topic = Some ''news''\<rparr>;
          s1 = s\<lparr>provider_calls := provider_calls s @ [Search query opts]\<rparr>
      in case tvly_search e query opts of
           Inl msg \<Rightarrow> s1
         | Inr results \<Rightarrow> snd (storeResults e results s1))"

definition queries :: "string list" where
  "queries =
     [''latest defi news'', ''defi protocol updates'', ''crypto market news'', ''hack news'',
      ''stablecoin news'', ''bitcoin news'', ''ethereum updates'', ''altcoin news'',
      ''crypto regulation'', ''defi hacks'', ''rug pull alerts'',
      ''smart contract vulnerabilities'', ''crypto exchange updates'', ''dex news'',
      ''total value locked'', ''protocol upgrades'', ''new token launches'',
      ''market volatility'', ''price analysis'', ''regulatory crackdown'', ''fundraising'',
      ''exploit reports'', ''governance proposals'', ''best defi platforms'',
      ''stablecoin depegging'', ''wallet vulnerabilities'', ''bitcoin etf news'',
      ''eth etf news'', ''donald trump'', ''elon musk'', ''CEX news'', ''hyperliquid'']"

section \<open>Tool handlers (index.ts)\<close>

record TargetedSearchArgs =
  query :: string
  includeDomains :: "string list option"
  maxResults :: "int option"
  searchDepth :: "string option"

record NewsItem =
  n_title :: string
  n_url :: string
  n_content :: string
  n_publishedDate :: string
  n_source :: string

record SearchPayload =
  p_source :: string
  p_query :: string
  p_results :: "NewsItem list"

definition cachedItem :: "NewsArticle \<Rightarrow> NewsItem" where
  "cachedItem article =
     \<lparr>n_title = title article, n_url = url article, n_content = summary article,
      n_publishedDate = publishedDate article, n_source = source article\<rparr>"

definition liveItem :: "env \<Rightarrow> SearchResult \<Rightarrow> NewsItem option" where
  "liveItem e result =
     (case url_hostname e (r_url result) of
        None \<Rightarrow> None
      | Some h \<Rightarrow>
          Some \<lparr>n_title = r_title result, n_url = r_url result,
                n_content = or_string (r_snippet result) (take 300 (r_content result) @ ''...''),
                n_publishedDate = or_string (r_publishedDate result) (time_iso e),
                n_source = h\<rparr>)"

fun liveItems :: "env \<Rightarrow> SearchResult list \<Rightarrow> NewsItem list option" where
  "liveItems e [] = Some []"
| "liveItems e (result # rest) =
     (case liveItem e result of
        None \<Rightarrow> None
      | Some item \<Rightarrow> (case liveItems e rest of None \<Rightarrow> None | Some items \<Rightarrow> Some (item # items)))"

definition searchOptions :: "env \<Rightarrow> TargetedSearchArgs \<Rightarrow> SearchOptions" where
  "searchOptions e args =
     \<lparr>opt_searchDepth = or_string (searchDepth args) ''basic'',
      opt_maxResults = or_number (maxResults args) 5,
      opt_includeDomains = targetWebsites (cfg e),
      opt_includeRawContent = False,
      opt_time_range = None,
      opt_topic = None\<rparr>"

definition handleTargetedSearch ::
    "env \<Rightarrow> TargetedSearchArgs \<Rightarrow> sys \<Rightarrow> (error + SearchPayload) \<times> sys" where
  "handleTargetedSearch e args s =
     (if query args = [] then (Inl (Error ''Query is required''), s)
      else if \<not> redis_up e then (Inl (Error (''Search failed: '' @ redis_error)), s)
      else
        let cachedResults =
              searchNewsArticles (time_now e) (store s) (query args) (or_number (maxResults args) 5)
        in if int (length cachedResults) \<ge> or_number (maxResults args) 5 then
             (Inr \<lparr>p_source = ''cache'', p_query = query args,
                   p_results = map cachedItem cachedResults\<rparr>, s)
           else
             let s1 = s\<lparr>provider_calls :=
                          provider_calls s @ [Search (query args) (searchOptions e args)]\<rparr>
             in case tvly_search e (query args) (searchOptions e args) of
                  Inl msg \<Rightarrow> (Inl (Error (''Search failed: '' @ msg)), s1)
                | Inr results \<Rightarrow>
                    (case storeResults e results s1 of
                       (Inl (Error msg), s2) \<Rightarrow> (Inl (Error (''Search failed: '' @ msg)), s2)
                     | (Inr articles, s2) \<Rightarrow>
                         (case liveItems e results of
                            None \<Rightarrow> (Inl (Error ''Search failed: Invalid URL''), s2)
                          | Some items \<Rightarrow>
                              (Inr \<lparr>p_source = ''tavily'', p_query = query args,
                                    p_results = items\<rparr>, s2))))"

record ExtractContentArgs =
  arg_url :: string

record ContentPayload =
  c_url :: string
  c_title :: string
  c_content :: string
  c_publishedDate :: "string option"

definition handleGetFullContent ::
    "env \<Rightarrow> ExtractContentArgs \<Rightarrow> sys \<Rightarrow> (error + ContentPayload) \<times> sys" where
  "handleGetFullContent e args s =
     (if arg_url args = [] then (Inl (Error ''URL is required''), s)
      else
        let s1 = s\<lparr>provider_calls := provider_calls s @ [Extract [arg_url args]]\<rparr>
        in case tvly_extract e [arg_url args] of
             Inl msg \<Rightarrow> (Inl (Error (''Content extraction failed: '' @ msg)), s1)
           | Inr None \<Rightarrow>
               (Inl (Error ''Content extraction failed: No content found for the provided URL''), s1)
           | Inr (Some []) \<Rightarrow>
               (Inl (Error ''Content extraction failed: No content found for the provided URL''), s1)
           | Inr (Some (result # others)) \<Rightarrow>
               (Inr \<lparr>c_url = arg_url args, c_title = x_title result,
                     c_content = x_content result,
                     c_publishedDate = x_publishedDate result\<rparr>, s1))"

record NewsPayload =
  np_count :: nat
  np_results :: "NewsItem list"

definition handleGetLatestNews :: "env \<Rightarrow> int option \<Rightarrow> sys \<Rightarrow> (error + NewsPayload) \<times> sys" where
  "handleGetLatestNews e limit_arg s =
     (let limit = or_number limit_arg 10
      in if \<not> redis_up e then
           (Inl (Error (''Failed to get latest news: '' @ redis_error)), s)
         else
           let articles = getNewsArticles (time_now e) (store s) limit 0
           in (Inr \<lparr>np_count = length articles, np_results = map cachedItem articles\<rparr>, s))"

section \<open>The scheduler and the process as a whole\<close>

text \<open>
  \<open>fetchLatestNews\<close>, cut at its \<open>await\<close>s. JavaScript runs a call without interruption up
  to its first \<open>await\<close>, so the test of the flag and its assignment are one step
  (\<open>Trigger\<close>); it either returns at once or leaves an activation behind. \<open>Resume i\<close> lets
  activation \<open>i\<close> run to its next \<open>await\<close>: reading and writing the marker, one
  \<open>processQuery\<close>, or leaving the \<open>try\<close> block. \<open>processQuery\<close> catches its own exceptions;
  what reaches the outer \<open>catch\<close> is a failure of the two marker calls. Either way the
  \<open>finally\<close> block clears the flag. The tool handlers run beside the scheduler; a call
  of one is taken as a single step.
\<close>

datatype event =
    Trigger
  | Resume nat
  | ToolSearch TargetedSearchArgs
  | ToolExtract ExtractContentArgs
  | ToolLatest "int option"

definition finish_sweep :: "nat \<Rightarrow> sys \<Rightarrow> sys" where
  "finish_sweep i s = s\<lparr>isRunning := False, sweeps := take i (sweeps s) @ drop (Suc i) (sweeps s)\<rparr>"

fun step :: "env \<Rightarrow> event \<Rightarrow> sys \<Rightarrow> sys" where
  "step e Trigger s =
     (if isRunning s then s
      else s\<lparr>isRunning := True, sweeps := sweeps s @ [AtStart]\<rparr>)"
| "step e (Resume i) s =
     (if i \<ge> length (sweeps s) then s
      else case sweeps s ! i of
             AtStart \<Rightarrow>
               if redis_up e then
                 s\<lparr>store := storeLastFetchTime (time_now e) (store s),
                   sweeps := (sweeps s)[i := AtQueries queries]\<rparr>
               else finish_sweep i s
           | AtQueries [] \<Rightarrow> finish_sweep i s
           | AtQueries (q # rest) \<Rightarrow>
               (processQuery e q s)\<lparr>sweeps := (sweeps s)[i := AtQueries rest]\<rparr>)"
| "step e (ToolSearch args) s = snd (handleTargetedSearch e args s)"
| "step e (ToolExtract args) s = snd (handleGetFullContent e args s)"
| "step e (ToolLatest limit_arg) s = snd (handleGetLatestNews e limit_arg s)"

text \<open>A schedule is the list of steps taken, each with the environment it ran in.\<close>

fun run :: "(env \<times> event) list \<Rightarrow> sys \<Rightarrow> sys" where
  "run [] s = s"
| "run ((e, ev) # rest) s = run rest (step e ev s)"

definition init_sys :: sys where
  "init_sys = \<lparr>store = empty_redis, isRunning = False, sweeps = [], provider_calls = [],
                uuid_count = 0\<rparr>"

text \<open>
  The number of \<open>Resume\<close> steps an activation still needs, and what the flag guards: at
  most one activation, present exactly when the flag is set.
\<close>

fun steps_left :: "sweep_pc \<Rightarrow> nat" where
  "steps_left AtStart = Suc (Suc (length queries))"
| "steps_left (AtQueries qs) = Suc (length qs)"

definition sweep_inv :: "sys \<Rightarrow> bool" where
  "sweep_inv s \<longleftrightarrow>
     length (sweeps s) \<le> 1 \<and> (isRunning s \<longleftrightarrow> sweeps s \<noteq> []) \<and>
     list_all (\<lambda>pc. steps_left pc \<le> 34) (sweeps s)"

section \<open>Sequences of puts, and sample data\<close>

text \<open>The state after a sequence of \<open>storeNewsArticle\<close> calls, each with the time it ran at.\<close>

fun puts :: "Config \<Rightarrow> (int \<times> NewsArticle) list \<Rightarrow> redis \<Rightarrow> redis" where
  "puts c [] r = r"
| "puts c ((t, article) # rest) r = puts c rest (storeNewsArticle c t article r)"

text \<open>The ids that the index lists, highest rank first, and the articles they resolve to.\<close>

definition indexed_ids :: "redis \<Rightarrow> string list" where
  "indexed_ids r = rev (map snd (news_index r))"

definition live_articles :: "int \<Rightarrow> redis \<Rightarrow> NewsArticle list" where
  "live_articles now r = List.map_filter (getNewsArticle now r) (indexed_ids r)"

definition cfg0 :: Config where
  "cfg0 = \<lparr>newsCacheTtlDays = 7, targetWebsites = [''https://www.theblock.co'']\<rparr>"

definition sample_article :: "string \<Rightarrow> string \<Rightarrow> int \<Rightarrow> NewsArticle" where
  "sample_article i t ts =
     \<lparr>art_id = i, title = t, url = ''https://crypto.news/a'', content = ''Body'',
      summary = ''Sum'', publishedDate = ''2025-01-01'', source = ''crypto.news'',
      score = 1 / 2, timestamp = ts\<rparr>"

definition store_one :: redis where
  "store_one = storeNewsArticle cfg0 100 (sample_article ''a1'' ''ETH Upgrade Live'' 100) empty_redis"

text \<open>
  Two puts, seven days of time-to-live: an article stamped 200 stored at time 200, then an
  article stamped 100 stored at time 400000.
\<close>

definition two_store :: redis where
  "two_store = puts cfg0 [(200, sample_article ''a'' ''Alpha'' 200),
                         (400000, sample_article ''b'' ''Beta'' 100)] empty_redis"

text \<open>The time-to-live in seconds, as \<open>storeNewsArticle\<close> computes it.\<close>

definition ttl_of :: "Config \<Rightarrow> int" where
  "ttl_of c = newsCacheTtlDays c * 24 * 60 * 60"

text \<open>The index entry of a put: the article's timestamp as score, its id as member.\<close>

definition entry_of :: "int \<times> NewsArticle \<Rightarrow> int \<times> string" where
  "entry_of p = (timestamp (snd p), art_id (snd p))"

text \<open>
  What every sequence of puts keeps: the index is in rank order with unique members, and
  the score of an entry is the timestamp of the article stored under its id.
\<close>

definition store_inv :: "redis \<Rightarrow> bool" where
  "store_inv r \<longleftrightarrow>
     sorted (news_index r) \<and> distinct (map snd (news_index r)) \<and>
     (\<forall>e \<in> set (news_index r). \<forall>a x. kv r (snd e) = Some (a, x) \<longrightarrow> timestamp a = fst e)"

text \<open>The ids of a sequence of puts, in insertion order.\<close>

definition put_ids :: "(int \<times> NewsArticle) list \<Rightarrow> string list" where
  "put_ids ps = map (\<lambda>p. art_id (snd p)) ps"



text \<open>Two articles ingested within the same second.\<close>

definition tie_store :: redis where
  "tie_store = puts cfg0 [(100, sample_article ''a'' ''Alpha'' 100),
                         (100, sample_article ''b'' ''Beta'' 100)] empty_redis"

text \<open>Three puts with timestamps 100, 200 and 300.\<close>

definition three_puts :: "(int \<times> NewsArticle) list" where
  "three_puts = [(100, sample_article ''a'' ''Alpha'' 100),
                 (200, sample_article ''b'' ''Beta'' 200),
                 (300, sample_article ''c'' ''Gamma'' 300)]"

section \<open>Sample environments\<close>

text \<open>A stand-in for the URL parser, good for \<open>https\<close> urls: the text up to the first slash.\<close>

definition hostname_of :: "string \<Rightarrow> string option" where
  "hostname_of u =
     (if startsWith u ''https://'' then Some (takeWhile (\<lambda>c. c \<noteq> CHR ''/'') (drop 8 u))
      else None)"

text \<open>Two provider results: one whose title is already stored in \<open>store_one\<close>, one with score 0.\<close>

definition dup_result :: SearchResult where
  "dup_result =
     \<lparr>r_title = ''eth upgrade live'', r_url = ''https://crypto.news/eth'', r_content = ''Body'',
      r_snippet = None, r_publishedDate = None, r_score = Some (4 / 5)\<rparr>"

definition zero_score_result :: SearchResult where
  "zero_score_result =
     \<lparr>r_title = ''Solana outage'', r_url = ''https://www.theblock.co/sol'', r_content = ''Down'',
      r_snippet = Some ''Solana halted'', r_publishedDate = Some ''2025-02-02'',
      r_score = Some 0\<rparr>"

text \<open>An environment in which everything works, and one with Redis and the provider down.\<close>

definition env_up :: env where
  "env_up =
     \<lparr>cfg = cfg0, time_now = 1000, time_iso = ''1970-01-01T00:16:40.000Z'', redis_up = True,
      url_hostname = hostname_of, randomUUID = (\<lambda>n. replicate (Suc n) CHR ''u''),
      tvly_search = (\<lambda>q opts. Inr [dup_result, zero_score_result]),
      tvly_extract = (\<lambda>urls. Inr (Some []))\<rparr>"

definition env_down :: env where
  "env_down = env_up\<lparr>redis_up := False, tvly_search := (\<lambda>q opts. Inl ''timeout'')\<rparr>"

text \<open>The process at rest, with one article in the store.\<close>

definition sys_one :: sys where
  "sys_one = init_sys\<lparr>store := store_one\<rparr>"

section \<open>The resolver's contract in the specification's terms\<close>






text \<open>Requests for \<open>handleTargetedSearch\<close>.\<close>

definition args_hit :: TargetedSearchArgs where
  "args_hit = \<lparr>query = ''upgrade'', includeDomains = None, maxResults = Some 1, searchDepth = None\<rparr>"

definition args_miss :: TargetedSearchArgs where
  "args_miss = \<lparr>query = ''solana'', includeDomains = None, maxResults = None, searchDepth = None\<rparr>"

definition args_zero :: TargetedSearchArgs where
  "args_zero = \<lparr>query = ''upgrade'', includeDomains = None, maxResults = Some 0, searchDepth = None\<rparr>"

definition args_empty :: TargetedSearchArgs where
  "args_empty = \<lparr>query = '''', includeDomains = None, maxResults = Some 5, searchDepth = None\<rparr>"

section \<open>Properties of the primitives\<close>

lemma length_toLowerCase: "length (toLowerCase s) = length s"
  by (simp add: toLowerCase_def)


lemmas store_defs =
  storeNewsArticle_def redis_set_def redis_expire_def redis_get_def zadd_def
  zremrangebyrank_def zrevrange_def rank_range_def empty_redis_def getNewsArticle_def Let_def

lemmas sample_defs = cfg0_def sample_article_def store_one_def

lemma resolved_map_filter:
  "map the (filter (\<lambda>article. article \<noteq> None) (map f ids)) = List.map_filter f ids"
  by (induction ids) (auto split: option.splits)


lemma length_map_filter_le: "length (List.map_filter f xs) \<le> length xs"
  by (induction xs) (auto split: option.splits)


section \<open>The deduplication gate\<close>



lemma store_one_index: "news_index store_one = [(100, ''a1'')]"
  by (simp add: store_defs sample_defs)

lemma store_one_get:
  "getNewsArticle 200 store_one ''a1'' = Some (sample_article ''a1'' ''ETH Upgrade Live'' 100)"
  by (simp add: store_defs sample_defs)




section \<open>Rank ranges and listing\<close>

lemma trim_index: "zremrangebyrank z 0 (- 1001) = drop (length z - 1000) z"
  by (auto simp: zremrangebyrank_def rank_range_def Let_def nat_diff_distrib' Suc_diff_le
      intro!: arg_cong2 [where f = drop])

lemma zrevrange_sub:
  "\<exists>a b. zrevrange z start stop = take a (drop b (rev (map snd z)))"
proof (cases "rank_range (int (length z)) start stop")
  case None
  then have "zrevrange z start stop = take 0 (drop 0 (rev (map snd z)))"
    by (simp add: zrevrange_def)
  then show ?thesis by blast
next
  case (Some p)
  then show ?thesis by (cases p) (auto simp: zrevrange_def)
qed

lemma zrevrange_top:
  assumes "1 \<le> limit"
  shows "zrevrange z 0 (0 + limit - 1) = take (nat limit) (rev (map snd z))"
proof (cases "z = []")
  case True
  then show ?thesis by (simp add: zrevrange_def rank_range_def Let_def)
next
  case False
  then have pos: "0 < length z" by simp
  show ?thesis
  proof (cases "limit - 1 \<ge> int (length z)")
    case True
    with pos assms show ?thesis
      by (simp add: zrevrange_def rank_range_def Let_def)
  next
    case False
    with pos assms have "rank_range (int (length z)) 0 (0 + limit - 1) = Some (0, nat (limit - 1))"
      by (simp add: rank_range_def Let_def)
    moreover have "Suc (nat (limit - 1)) = nat limit" using assms by simp
    ultimately show ?thesis by (simp add: zrevrange_def)
  qed
qed

lemma getNewsArticles_map_filter:
  "getNewsArticles now r limit offset =
     List.map_filter (getNewsArticle now r) (zrevrange (news_index r) offset (offset + limit - 1))"
  unfolding getNewsArticles_def Let_def resolved_map_filter by simp

lemma getNewsArticles_top:
  "1 \<le> limit \<Longrightarrow> getNewsArticles now r limit 0 =
     List.map_filter (getNewsArticle now r) (take (nat limit) (indexed_ids r))"
  unfolding getNewsArticles_map_filter indexed_ids_def by (simp only: zrevrange_top)



lemma map_filter_append:
  "List.map_filter f (xs @ ys) = List.map_filter f xs @ List.map_filter f ys"
  by (induction xs) (auto split: option.splits)

lemma map_filter_all_live:
  "\<forall>x \<in> set xs. f x \<noteq> None \<Longrightarrow> List.map_filter f xs = map (the \<circ> f) xs"
  by (induction xs) (auto split: option.splits)

lemma map_filter_all_dead:
  "\<forall>x \<in> set xs. f x = None \<Longrightarrow> List.map_filter f xs = []"
  by (induction xs) (auto split: option.splits)

lemma map_filter_take_prefix:
  assumes "\<forall>x \<in> set (take n xs). f x \<noteq> None" and "\<forall>x \<in> set (drop n xs). f x = None"
  shows "List.map_filter f (take m xs) = take m (List.map_filter f xs)"
proof -
  let ?A = "take n xs" and ?B = "drop n xs"
  have live_sub: "\<forall>x \<in> set (take m ?A). f x \<noteq> None"
    using assms(1) by (meson in_set_takeD)
  have dead_sub: "\<forall>x \<in> set (take (m - length ?A) ?B). f x = None"
    using assms(2) by (meson in_set_takeD)
  have "take m xs = take m (?A @ ?B)" by simp
  also have "\<dots> = take m ?A @ take (m - length ?A) ?B" by (rule take_append)
  finally have "List.map_filter f (take m xs) = map (the \<circ> f) (take m ?A)"
    using live_sub dead_sub
    by (simp add: map_filter_append map_filter_all_live map_filter_all_dead)
  moreover have "List.map_filter f xs = map (the \<circ> f) ?A"
  proof -
    have "List.map_filter f xs = List.map_filter f (?A @ ?B)" by simp
    also have "\<dots> = map (the \<circ> f) ?A"
      using assms unfolding map_filter_append
      by (simp add: map_filter_all_live map_filter_all_dead)
    finally show ?thesis .
  qed
  ultimately show ?thesis by (simp add: take_map)
qed

text \<open>
  C5 (as amended). For a limit of at least 1, \<open>getNewsArticles limit 0\<close> reads the \<open>limit\<close>
  highest-ranked index entries and returns those that have not expired, skipping the others
  without error and without reading further down the index. So it returns at most \<open>limit\<close>
  articles; exactly \<open>limit\<close> when these entries exist and are all live; and, when no expired
  entry ranks above a live one, the first \<open>limit\<close> of all live indexed articles, hence
  fewer than \<open>limit\<close> only if fewer than \<open>limit\<close> are live.
\<close>

theorem getNewsArticles_limit:
  "1 \<le> limit \<Longrightarrow>
     getNewsArticles now r limit 0 =
       List.map_filter (getNewsArticle now r) (take (nat limit) (indexed_ids r)) \<and>
     length (getNewsArticles now r limit 0) \<le> nat limit \<and>
     (nat limit \<le> length (indexed_ids r) \<and>
      (\<forall>i \<in> set (take (nat limit) (indexed_ids r)). getNewsArticle now r i \<noteq> None)
        \<longrightarrow> length (getNewsArticles now r limit 0) = nat limit) \<and>
     ((\<exists>n. (\<forall>i \<in> set (take n (indexed_ids r)). getNewsArticle now r i \<noteq> None) \<and>
           (\<forall>i \<in> set (drop n (indexed_ids r)). getNewsArticle now r i = None))
        \<longrightarrow> getNewsArticles now r limit 0 = take (nat limit) (live_articles now r))"
proof -
  assume lim: "1 \<le> limit"
  let ?top = "take (nat limit) (indexed_ids r)"
  have eq: "getNewsArticles now r limit 0 = List.map_filter (getNewsArticle now r) ?top"
    using lim by (rule getNewsArticles_top)
  have le: "length (getNewsArticles now r limit 0) \<le> nat limit"
    unfolding eq using length_map_filter_le [of "getNewsArticle now r" ?top] by simp
  have full: "length (getNewsArticles now r limit 0) = nat limit"
    if "nat limit \<le> length (indexed_ids r)"
      and "\<forall>i \<in> set ?top. getNewsArticle now r i \<noteq> None"
    unfolding eq using that by (simp add: map_filter_all_live)
  have pre: "getNewsArticles now r limit 0 = take (nat limit) (live_articles now r)"
    if "\<exists>n. (\<forall>i \<in> set (take n (indexed_ids r)). getNewsArticle now r i \<noteq> None) \<and>
           (\<forall>i \<in> set (drop n (indexed_ids r)). getNewsArticle now r i = None)"
  proof -
    from that obtain n where
      "\<forall>i \<in> set (take n (indexed_ids r)). getNewsArticle now r i \<noteq> None"
      "\<forall>i \<in> set (drop n (indexed_ids r)). getNewsArticle now r i = None" by blast
    then show ?thesis unfolding eq live_articles_def by (rule map_filter_take_prefix)
  qed
  from eq le full pre show ?thesis by blast
qed

lemma two_store_index: "news_index two_store = [(100, ''b''), (200, ''a'')]"
  by (simp add: two_store_def store_defs sample_defs)

lemma two_store_a: "getNewsArticle 700000 two_store ''a'' = None"
  by (simp add: two_store_def store_defs sample_defs)

lemma two_store_b: "getNewsArticle 700000 two_store ''b'' = Some (sample_article ''b'' ''Beta'' 100)"
  by (simp add: two_store_def store_defs sample_defs)

text \<open>
  The claim as stated fails: with the higher-ranked of two entries expired, a limit of 1
  returns nothing although one indexed article is live; and a limit of 0 asks Redis for the
  range 0 to -1, which is the whole index.
\<close>

theorem getNewsArticles_short_counterexample:
  "getNewsArticles 700000 two_store 1 0 = [] \<and>
   live_articles 700000 two_store = [sample_article ''b'' ''Beta'' 100] \<and>
   getNewsArticles 200 store_one 0 0 = [sample_article ''a1'' ''ETH Upgrade Live'' 100]"
  by (simp add: getNewsArticles_map_filter live_articles_def indexed_ids_def zrevrange_def rank_range_def
      two_store_index two_store_a two_store_b store_one_index store_one_get)

theorem getNewsArticles_limit_witness:
  "(1::int) \<le> 1 \<and> nat 1 \<le> length (indexed_ids store_one) \<and>
   take (nat 1) (indexed_ids store_one) = [''a1''] \<and>
   drop 1 (indexed_ids store_one) = [] \<and>
   getNewsArticle 200 store_one ''a1'' \<noteq> None \<and>
   length (getNewsArticles 200 store_one 1 0) = nat 1 \<and>
   getNewsArticles 200 store_one 1 0 = take (nat 1) (live_articles 200 store_one)"
proof -
  have ids: "indexed_ids store_one = [''a1'']"
    by (simp add: indexed_ids_def store_one_index)
  have h1: "(1::int) \<le> 1" by simp
  have h2: "nat 1 \<le> length (indexed_ids store_one)" by (simp add: ids)
  have h3: "\<forall>i \<in> set (take (nat 1) (indexed_ids store_one)). getNewsArticle 200 store_one i \<noteq> None"
    by (simp add: ids store_one_get)
  have h4: "\<forall>i \<in> set (take 1 (indexed_ids store_one)). getNewsArticle 200 store_one i \<noteq> None"
    by (simp add: ids store_one_get)
  have h5: "\<forall>i \<in> set (drop 1 (indexed_ids store_one)). getNewsArticle 200 store_one i = None"
    by (simp add: ids)
  have c: "length (getNewsArticles 200 store_one 1 0) = nat 1 \<and>
      getNewsArticles 200 store_one 1 0 = take (nat 1) (live_articles 200 store_one)"
    using getNewsArticles_limit [OF h1, of 200 store_one] h2 h3 h4 h5 by blast
  have "take (nat 1) (indexed_ids store_one) = [''a1'']" "drop 1 (indexed_ids store_one) = []"
    "getNewsArticle 200 store_one ''a1'' \<noteq> None"
    by (simp_all add: ids store_one_get)
  with h1 h2 c show ?thesis by blast
qed

section \<open>The index under puts\<close>

lemma index_storeNewsArticle:
  "news_index (storeNewsArticle c t a r) =
     drop (length (zadd (news_index r) (timestamp a) (art_id a)) - 1000)
       (zadd (news_index r) (timestamp a) (art_id a))"
  by (simp add: storeNewsArticle_def redis_set_def redis_expire_def redis_get_def Let_def trim_index)

lemma kv_storeNewsArticle:
  "kv (storeNewsArticle c t a r) =
     (if ttl_of c \<le> 0 then (kv r)(art_id a := None)
      else (kv r)(art_id a \<mapsto> (a, Some (t + ttl_of c))))"
  by (simp add: storeNewsArticle_def redis_set_def redis_expire_def redis_get_def Let_def ttl_of_def)

lemma get_storeNewsArticle:
  "getNewsArticle now (storeNewsArticle c t a r) i =
     (if i = art_id a then (if 0 < ttl_of c \<and> now < t + ttl_of c then Some a else None)
      else getNewsArticle now r i)"
  by (simp add: getNewsArticle_def redis_get_def kv_storeNewsArticle)

lemma set_zadd: "set (zadd z sc m) = insert (sc, m) {e \<in> set z. snd e \<noteq> m}"
  by (auto simp: zadd_def set_insort_key)

lemma sorted_zadd: "sorted z \<Longrightarrow> sorted (zadd z sc m)"
  by (simp add: zadd_def sorted_insort sorted_wrt_filter)

lemma distinct_zadd: "distinct (map snd z) \<Longrightarrow> distinct (map snd (zadd z sc m))"
proof -
  assume d: "distinct (map snd z)"
  have "distinct (map snd (filter (\<lambda>e. snd e \<noteq> m) z))"
    using d by (simp add: distinct_map_filter)
  moreover have "m \<notin> snd ` set (filter (\<lambda>e. snd e \<noteq> m) z)" by auto
  ultimately have "distinct (map snd (insort_key (\<lambda>x. x) (sc, m) (filter (\<lambda>e. snd e \<noteq> m) z)))"
    by (auto simp: distinct_map distinct_insort set_insort_key inj_on_def)
  then show ?thesis by (simp add: zadd_def)
qed

lemma store_inv_empty: "store_inv empty_redis"
  by (simp add: store_inv_def empty_redis_def)

lemma store_inv_storeNewsArticle:
  assumes "store_inv r"
  shows "store_inv (storeNewsArticle c t a r)"
proof -
  let ?z = "zadd (news_index r) (timestamp a) (art_id a)"
  let ?r = "storeNewsArticle c t a r"
  have idx: "news_index ?r = drop (length ?z - 1000) ?z" by (rule index_storeNewsArticle)
  have s: "sorted ?z" and d: "distinct (map snd ?z)"
    using assms by (simp_all add: store_inv_def sorted_zadd distinct_zadd)
  have s': "sorted (news_index ?r)" unfolding idx using s by simp
  have d': "distinct (map snd (news_index ?r))"
    unfolding idx using d by (simp add: drop_map [symmetric])
  have k': "timestamp b = fst e"
    if "e \<in> set (news_index ?r)" and "kv ?r (snd e) = Some (b, x)" for e b x
  proof -
    from that(1) have "e \<in> set ?z" unfolding idx by (rule in_set_dropD)
    then consider "e = (timestamp a, art_id a)" | "e \<in> set (news_index r)" "snd e \<noteq> art_id a"
      by (auto simp: set_zadd)
    then show ?thesis
    proof cases
      case 1
      with that(2) show ?thesis by (auto simp: kv_storeNewsArticle split: if_splits)
    next
      case 2
      with that(2) have "kv r (snd e) = Some (b, x)"
        by (auto simp: kv_storeNewsArticle split: if_splits)
      with 2(1) assms show ?thesis unfolding store_inv_def by blast
    qed
  qed
  from s' d' k' show ?thesis unfolding store_inv_def by blast
qed

lemma store_inv_puts: "store_inv r \<Longrightarrow> store_inv (puts c ps r)"
  by (induction ps arbitrary: r) (auto simp: store_inv_storeNewsArticle)

lemma puts_snoc: "puts c (ps @ [(t, a)]) r = storeNewsArticle c t a (puts c ps r)"
  by (induction ps arbitrary: r) auto

text \<open>Listing resolves a contiguous stretch of the reversed index.\<close>

lemma zrevrange_entries:
  "\<exists>a b. zrevrange z start stop = map snd (take a (drop b (rev z)))"
proof -
  obtain a b where "zrevrange z start stop = take a (drop b (rev (map snd z)))"
    using zrevrange_sub by blast
  then have "zrevrange z start stop = map snd (take a (drop b (rev z)))"
    by (simp add: take_map drop_map rev_map)
  then show ?thesis by blast
qed

lemma timestamps_resolved:
  assumes "\<forall>e \<in> set es. \<forall>a. f (snd e) = Some a \<longrightarrow> timestamp a = fst e"
  shows "map timestamp (List.map_filter f (map snd es)) =
         map fst (filter (\<lambda>e. f (snd e) \<noteq> None) es)"
  using assms by (induction es) (auto split: option.splits)

lemma store_inv_get:
  "store_inv r \<Longrightarrow> e \<in> set (news_index r) \<Longrightarrow> getNewsArticle now r (snd e) = Some a \<Longrightarrow>
   timestamp a = fst e"
  unfolding store_inv_def getNewsArticle_def redis_get_def
  by (auto split: option.splits if_splits)

lemma listed_timestamps:
  assumes "store_inv r"
  shows "\<exists>a b. map timestamp (getNewsArticles now r limit offset) =
           map fst (filter (\<lambda>e. getNewsArticle now r (snd e) \<noteq> None)
                      (take a (drop b (rev (news_index r)))))"
proof -
  obtain a b where z: "zrevrange (news_index r) offset (offset + limit - 1) =
      map snd (take a (drop b (rev (news_index r))))"
    using zrevrange_entries by blast
  have "\<forall>e \<in> set (take a (drop b (rev (news_index r)))). \<forall>x.
          getNewsArticle now r (snd e) = Some x \<longrightarrow> timestamp x = fst e"
    using store_inv_get [OF assms] by (metis in_set_dropD in_set_takeD set_rev)
  then have "map timestamp (getNewsArticles now r limit offset) =
           map fst (filter (\<lambda>e. getNewsArticle now r (snd e) \<noteq> None)
                      (take a (drop b (rev (news_index r)))))"
    unfolding getNewsArticles_map_filter z by (rule timestamps_resolved)
  then show ?thesis by blast
qed

lemma sorted_fst: "sorted (z :: (int \<times> string) list) \<Longrightarrow> sorted (map fst z)"
  unfolding sorted_wrt_map by (rule sorted_wrt_mono_rel) (auto simp: less_eq_prod_def)

lemma listed_descending:
  assumes "store_inv r"
  shows "sorted_wrt (\<ge>) (map timestamp (getNewsArticles now r limit offset))"
proof -
  obtain a b where eq: "map timestamp (getNewsArticles now r limit offset) =
           map fst (filter (\<lambda>e. getNewsArticle now r (snd e) \<noteq> None)
                      (take a (drop b (rev (news_index r)))))"
    using listed_timestamps [OF assms] by blast
  have "sorted (map fst (news_index r))"
    using assms by (simp add: store_inv_def sorted_fst)
  then have "sorted_wrt (\<lambda>x y. fst x \<ge> fst y) (rev (news_index r))"
    by (simp add: sorted_wrt_rev sorted_wrt_map)
  then have "sorted_wrt (\<lambda>x y. fst x \<ge> fst y)
      (filter (\<lambda>e. getNewsArticle now r (snd e) \<noteq> None) (take a (drop b (rev (news_index r)))))"
    by (intro sorted_wrt_filter sorted_wrt_take sorted_wrt_drop)
  then show ?thesis unfolding eq by (simp add: sorted_wrt_map)
qed

lemma keep_last_snoc:
  "drop (length (drop (length xs - k) xs @ [x]) - k) (drop (length xs - k) xs @ [x]) =
   drop (length (xs @ [x]) - k) (xs @ [x])"
proof (cases "length xs < k")
  case True
  then show ?thesis by simp
next
  case False
  then have k: "k \<le> length xs" by simp
  show ?thesis
  proof (cases "k = 0")
    case True
    then show ?thesis by simp
  next
    case False
    with k have a: "length xs - (length xs - k) = k" and b: "Suc (length xs) - k = Suc (length xs - k)"
      and c: "Suc k - k = Suc 0" and d: "Suc (length xs - k) - length xs = 0"
      and e: "Suc 0 - k = 0"
      by auto
    show ?thesis by (simp add: a b c d e)
  qed
qed


lemma zadd_new_top:
  assumes "sorted z" and "\<forall>e \<in> set z. e \<le> (sc, m)" and "m \<notin> snd ` set z"
  shows "zadd z sc m = z @ [(sc, m)]"
proof -
  have "filter (\<lambda>e. snd e \<noteq> m) z = z" using assms(3) by (auto simp: filter_id_conv)
  then show ?thesis using assms(1,2) by (simp add: zadd_def sorted_insort_is_snoc)
qed


lemma entry_ids: "snd ` set (map entry_of ps) = (\<lambda>p. art_id (snd p)) ` set ps"
  by (force simp: entry_of_def image_iff)

lemma puts_index_increasing:
  assumes "sorted_wrt (<) (map entry_of ps)" and "distinct (map (\<lambda>p. art_id (snd p)) ps)"
  shows "news_index (puts c ps empty_redis) =
           drop (length (map entry_of ps) - 1000) (map entry_of ps)"
  using assms
proof (induction ps rule: rev_induct)
  case Nil
  then show ?case by (simp add: empty_redis_def)
next
  case (snoc p ps)
  obtain t a where p: "p = (t, a)" by (cases p)
  let ?es = "map entry_of ps"
  let ?z = "drop (length ?es - 1000) ?es"
  from snoc.prems have srt: "sorted_wrt (<) ?es"
    and above: "\<forall>q \<in> set ps. entry_of q < entry_of p"
    and dist: "distinct (map (\<lambda>p. art_id (snd p)) ps)"
    and fresh: "art_id a \<notin> (\<lambda>p. art_id (snd p)) ` set ps"
    by (auto simp: sorted_wrt_append p)
  have idx: "news_index (puts c ps empty_redis) = ?z" using snoc.IH srt dist by blast
  have "sorted ?es" using srt by (rule sorted_wrt_mono_rel [rotated]) auto
  then have sz: "sorted ?z" by simp
  have ep: "entry_of p = (timestamp a, art_id a)" by (simp add: p entry_of_def)
  have below: "\<forall>e \<in> set ?z. e \<le> (timestamp a, art_id a)"
  proof
    fix e assume "e \<in> set ?z"
    then have "e \<in> set ?es" by (rule in_set_dropD)
    then obtain q where "q \<in> set ps" "e = entry_of q" by auto
    with above have "e < entry_of p" by simp
    then show "e \<le> (timestamp a, art_id a)" unfolding ep by (rule less_imp_le)
  qed
  have "snd ` set ?z \<subseteq> snd ` set ?es" by (intro image_mono set_drop_subset)
  then have new: "art_id a \<notin> snd ` set ?z"
    using fresh unfolding entry_ids by blast
  have z': "zadd ?z (timestamp a) (art_id a) = ?z @ [entry_of (t, a)]"
    using zadd_new_top [OF sz below new] by (simp add: entry_of_def)
  have "news_index (puts c (ps @ [p]) empty_redis) =
          drop (length (?z @ [entry_of p]) - 1000) (?z @ [entry_of p])"
    unfolding p puts_snoc index_storeNewsArticle idx z' ..
  also have "\<dots> = drop (length (?es @ [entry_of p]) - 1000) (?es @ [entry_of p])"
    by (rule keep_last_snoc)
  finally show ?case by simp
qed


lemma get_puts_distinct:
  assumes "distinct (map (\<lambda>p. art_id (snd p)) ps)" and "(t, a) \<in> set ps"
  shows "getNewsArticle now (puts c ps r) (art_id a) =
           (if 0 < ttl_of c \<and> now < t + ttl_of c then Some a else None)"
  using assms
proof (induction ps rule: rev_induct)
  case Nil
  then show ?case by simp
next
  case (snoc p ps)
  obtain t' a' where p: "p = (t', a')" by (cases p)
  from snoc.prems(1) have dist: "distinct (map (\<lambda>p. art_id (snd p)) ps)"
    and fresh: "art_id a' \<notin> (\<lambda>p. art_id (snd p)) ` set ps"
    by (auto simp: p)
  show ?case
  proof (cases "(t, a) \<in> set ps")
    case True
    with fresh have "art_id a \<noteq> art_id a'" by force
    with snoc.IH [OF dist True] show ?thesis
      unfolding p puts_snoc get_storeNewsArticle by simp
  next
    case False
    with snoc.prems(2) have "t = t'" "a = a'" by (auto simp: p)
    then show ?thesis unfolding p puts_snoc get_storeNewsArticle by simp
  qed
qed

lemma map_filter_resolved:
  "\<forall>p \<in> set ps. f (g p) = Some (h p) \<Longrightarrow> List.map_filter f (map g ps) = map h ps"
  by (induction ps) auto

lemma indexed_ids_increasing:
  assumes "sorted_wrt (<) (map entry_of ps)" and "distinct (put_ids ps)"
  shows "indexed_ids (puts c ps empty_redis) = take 1000 (rev (put_ids ps))"
proof -
  have ids: "map snd (map entry_of ps) = put_ids ps" by (simp add: put_ids_def entry_of_def)
  have "indexed_ids (puts c ps empty_redis) =
          rev (drop (length ps - 1000) (map snd (map entry_of ps)))"
    unfolding indexed_ids_def puts_index_increasing [OF assms [unfolded put_ids_def]]
    by (simp only: drop_map length_map)
  then have "indexed_ids (puts c ps empty_redis) = rev (drop (length ps - 1000) (put_ids ps))"
    unfolding ids .
  also have "\<dots> = take (length ps - (length ps - 1000)) (rev (put_ids ps))"
    by (simp add: rev_drop put_ids_def)
  also have "\<dots> = take 1000 (rev (put_ids ps))"
    by (cases "length ps < 1000") (simp_all add: put_ids_def)
  finally show ?thesis .
qed

lemma entries_of_timestamps:
  "sorted_wrt (<) (map (\<lambda>p. timestamp (snd p)) ps) \<Longrightarrow> sorted_wrt (<) (map entry_of ps)"
  unfolding sorted_wrt_map
  by (erule sorted_wrt_mono_rel [rotated]) (simp add: entry_of_def)

lemma listed_strictly_descending:
  assumes "sorted_wrt (<) (map (\<lambda>p. timestamp (snd p)) ps)" and "distinct (put_ids ps)"
  shows "sorted_wrt (>) (map timestamp (getNewsArticles now (puts c ps empty_redis) limit offset))"
proof -
  let ?r = "puts c ps empty_redis"
  have inv: "store_inv ?r" by (simp add: store_inv_puts store_inv_empty)
  obtain a b where eq: "map timestamp (getNewsArticles now ?r limit offset) =
           map fst (filter (\<lambda>e. getNewsArticle now ?r (snd e) \<noteq> None)
                      (take a (drop b (rev (news_index ?r)))))"
    using listed_timestamps [OF inv] by blast
  have idx: "news_index ?r = drop (length (map entry_of ps) - 1000) (map entry_of ps)"
    using puts_index_increasing [OF entries_of_timestamps [OF assms(1)] assms(2) [unfolded put_ids_def]] .
  have "sorted_wrt (\<lambda>x y. fst x < fst y) (map entry_of ps)"
    using assms(1) by (simp add: sorted_wrt_map entry_of_def)
  then have "sorted_wrt (\<lambda>x y. fst x < fst y) (news_index ?r)"
    unfolding idx by (rule sorted_wrt_drop)
  then have "sorted_wrt (\<lambda>x y. fst x > fst y) (rev (news_index ?r))"
    by (simp add: sorted_wrt_rev)
  then have "sorted_wrt (\<lambda>x y. fst x > fst y)
      (filter (\<lambda>e. getNewsArticle now ?r (snd e) \<noteq> None) (take a (drop b (rev (news_index ?r)))))"
    by (intro sorted_wrt_filter sorted_wrt_take sorted_wrt_drop)
  then show ?thesis unfolding eq by (simp add: sorted_wrt_map)
qed

lemma listed_most_recent:
  assumes "sorted_wrt (<) (map (\<lambda>p. timestamp (snd p)) ps)" and "distinct (put_ids ps)"
    and "1 \<le> limit" and "limit \<le> 1000"
    and "0 < ttl_of c" and "\<forall>p \<in> set ps. now < fst p + ttl_of c"
  shows "getNewsArticles now (puts c ps empty_redis) limit 0 = take (nat limit) (rev (map snd ps))"
proof -
  let ?r = "puts c ps empty_redis"
  have live: "getNewsArticle now ?r (art_id (snd p)) = Some (snd p)" if "p \<in> set ps" for p
    using get_puts_distinct [OF assms(2) [unfolded put_ids_def], of "fst p" "snd p" now c empty_redis]
      that assms(5,6) by simp
  have "min (nat limit) 1000 = nat limit" using assms(4) by simp
  then have "take (nat limit) (indexed_ids ?r) = take (nat limit) (rev (put_ids ps))"
    unfolding indexed_ids_increasing [OF entries_of_timestamps [OF assms(1)] assms(2)] by simp
  also have "\<dots> = map (\<lambda>p. art_id (snd p)) (take (nat limit) (rev ps))"
    by (simp add: put_ids_def rev_map take_map)
  finally have top: "take (nat limit) (indexed_ids ?r) =
      map (\<lambda>p. art_id (snd p)) (take (nat limit) (rev ps))" .
  have "\<forall>p \<in> set (take (nat limit) (rev ps)).
          getNewsArticle now ?r (art_id (snd p)) = Some (snd p)"
    using live by (auto dest: in_set_takeD)
  then have "List.map_filter (getNewsArticle now ?r) (take (nat limit) (indexed_ids ?r)) =
      map snd (take (nat limit) (rev ps))"
    unfolding top by (rule map_filter_resolved)
  then show ?thesis
    unfolding getNewsArticles_top [OF assms(3)] by (simp add: rev_map take_map)
qed

text \<open>
  C6 (as amended). After any sequence of puts into the empty store, \<open>getNewsArticles\<close>
  returns articles in descending timestamp order, where equal timestamps may follow one
  another. When the puts have strictly increasing timestamps and distinct ids the order is
  strictly descending, and if moreover no article has expired, a limit between 1 and 1000
  returns the \<open>limit\<close> most recently inserted articles, most recent first.
\<close>

theorem list_order:
  "sorted_wrt (\<ge>) (map timestamp (getNewsArticles now (puts c ps empty_redis) limit offset)) \<and>
   (sorted_wrt (<) (map (\<lambda>p. timestamp (snd p)) ps) \<and> distinct (put_ids ps) \<longrightarrow>
      sorted_wrt (>) (map timestamp (getNewsArticles now (puts c ps empty_redis) limit offset)) \<and>
      (1 \<le> limit \<and> limit \<le> 1000 \<and> 0 < ttl_of c \<and> (\<forall>p \<in> set ps. now < fst p + ttl_of c) \<longrightarrow>
         getNewsArticles now (puts c ps empty_redis) limit 0 =
           take (nat limit) (rev (map snd ps))))"
  using listed_descending [of "puts c ps empty_redis" now limit offset]
    store_inv_puts [OF store_inv_empty, of c ps]
    listed_strictly_descending [of ps now c limit offset]
    listed_most_recent [of ps limit c now]
  by blast

lemma sample_timestamp: "timestamp (sample_article i t ts) = ts"
  by (simp add: sample_article_def)

text \<open>
  Timestamps are whole seconds, and two articles stored within the same second are both
  listed: the order is then not strictly descending.
\<close>

theorem list_order_counterexample:
  "getNewsArticles 100 tie_store 2 0 =
     [sample_article ''b'' ''Beta'' 100, sample_article ''a'' ''Alpha'' 100] \<and>
   \<not> sorted_wrt (>) (map timestamp (getNewsArticles 100 tie_store 2 0))"
proof -
  have idx: "news_index tie_store = [(100, ''a''), (100, ''b'')]"
    by (simp add: tie_store_def store_defs sample_defs)
  have a: "getNewsArticle 100 tie_store ''a'' = Some (sample_article ''a'' ''Alpha'' 100)"
    by (simp add: tie_store_def store_defs sample_defs)
  have b: "getNewsArticle 100 tie_store ''b'' = Some (sample_article ''b'' ''Beta'' 100)"
    by (simp add: tie_store_def store_defs sample_defs)
  have "getNewsArticles 100 tie_store 2 0 =
     [sample_article ''b'' ''Beta'' 100, sample_article ''a'' ''Alpha'' 100]"
    by (simp add: getNewsArticles_map_filter zrevrange_def rank_range_def idx a b)
  then show ?thesis by (simp add: sample_article_def)
qed

theorem list_order_witness:
  "sorted_wrt (<) (map (\<lambda>p. timestamp (snd p)) three_puts) \<and> distinct (put_ids three_puts) \<and>
   (1::int) \<le> 2 \<and> (2::int) \<le> 1000 \<and> 0 < ttl_of cfg0 \<and>
   list_all (\<lambda>p. 300 < fst p + ttl_of cfg0) three_puts \<and>
   getNewsArticles 300 (puts cfg0 three_puts empty_redis) 2 0 =
     [sample_article ''c'' ''Gamma'' 300, sample_article ''b'' ''Beta'' 200] \<and>
   sorted_wrt (>) (map timestamp (getNewsArticles 300 (puts cfg0 three_puts empty_redis) 2 0))"
proof -
  have h1: "sorted_wrt (<) (map (\<lambda>p. timestamp (snd p)) three_puts)"
    by (simp add: three_puts_def sample_article_def)
  have h2: "distinct (put_ids three_puts)"
    by (simp add: three_puts_def put_ids_def sample_article_def)
  have h3: "0 < ttl_of cfg0" by (simp add: ttl_of_def cfg0_def)
  have h4: "\<forall>p \<in> set three_puts. 300 < fst p + ttl_of cfg0"
    by (simp add: three_puts_def ttl_of_def cfg0_def)
  have "take (nat 2) (rev (map snd three_puts)) =
      [sample_article ''c'' ''Gamma'' 300, sample_article ''b'' ''Beta'' 200]"
    by (simp add: three_puts_def numeral_2_eq_2)
  with list_order [of 300 cfg0 three_puts 2 0] h1 h2 h3 h4 show ?thesis
    by (simp add: sample_timestamp list_all_iff)
qed










section \<open>Article construction, extraction and the latest-news listing\<close>

lemmas env_defs = env_up_def env_down_def hostname_of_def dup_result_def zero_score_result_def
  sys_one_def init_sys_def

text \<open>
  C8. The article literal takes \<open>result.score || 0.5\<close>. A provider score of 0 is falsy,
  so the article built from it carries 0.5, not the provider's 0.
\<close>

theorem score_zero_replaced:
  "r_score zero_score_result = Some 0 \<and>
   buildArticle env_up ''u'' zero_score_result =
     Inr \<lparr>art_id = ''u'', title = ''Solana outage'', url = ''https://www.theblock.co/sol'',
          content = ''Down'', summary = ''Solana halted'', publishedDate = ''2025-02-02'',
          source = ''www.theblock.co'', score = 1 / 2, timestamp = 1000\<rparr>"
  by (simp add: buildArticle_def env_defs or_string_def or_number_def)

text \<open>
  C9. \<open>handleGetFullContent\<close> leaves the database (articles, index and last-fetch
  marker) as it found it, on every path; it only calls the provider. When the provider
  answers with no results, or with no usable response, the handler fails.
\<close>

theorem extract_frame:
  "store (snd (handleGetFullContent e args s)) = store s \<and>
   isRunning (snd (handleGetFullContent e args s)) = isRunning s \<and>
   sweeps (snd (handleGetFullContent e args s)) = sweeps s \<and>
   uuid_count (snd (handleGetFullContent e args s)) = uuid_count s \<and>
   (tvly_extract e [arg_url args] = Inr (Some []) \<or> tvly_extract e [arg_url args] = Inr None
      \<longrightarrow> isl (fst (handleGetFullContent e args s)))"
  by (auto simp: handleGetFullContent_def Let_def split: sum.splits option.splits list.splits)

theorem extract_frame_witness:
  "tvly_extract env_up [arg_url \<lparr>arg_url = ''https://crypto.news/eth''\<rparr>] = Inr (Some []) \<and>
   store (snd (handleGetFullContent env_up \<lparr>arg_url = ''https://crypto.news/eth''\<rparr> sys_one)) = store_one \<and>
   isl (fst (handleGetFullContent env_up \<lparr>arg_url = ''https://crypto.news/eth''\<rparr> sys_one))"
proof -
  have h: "tvly_extract env_up [arg_url \<lparr>arg_url = ''https://crypto.news/eth''\<rparr>] = Inr (Some [])"
    by (simp add: env_up_def)
  have "store sys_one = store_one" by (simp add: sys_one_def)
  with extract_frame [of env_up "\<lparr>arg_url = ''https://crypto.news/eth''\<rparr>" sys_one] h
  show ?thesis by simp
qed

text \<open>
  C10. \<open>handleGetLatestNews\<close> treats an absent limit and a limit of 0 as 10: all three
  requests give the same answer, which on a working connection lists the live articles among
  the ten highest-ranked index entries, at most ten of them.
\<close>

theorem latest_default_limit:
  "handleGetLatestNews e None s = handleGetLatestNews e (Some 10) s \<and>
   handleGetLatestNews e (Some 0) s = handleGetLatestNews e (Some 10) s \<and>
   (redis_up e \<longrightarrow>
      handleGetLatestNews e (Some 0) s =
        (Inr \<lparr>np_count = length (List.map_filter (getNewsArticle (time_now e) (store s))
                                   (take 10 (indexed_ids (store s)))),
              np_results = map cachedItem (List.map_filter (getNewsArticle (time_now e) (store s))
                                   (take 10 (indexed_ids (store s))))\<rparr>, s) \<and>
      length (List.map_filter (getNewsArticle (time_now e) (store s))
                (take 10 (indexed_ids (store s)))) \<le> 10)"
proof -
  have "getNewsArticles now r 10 0 =
      List.map_filter (getNewsArticle now r) (take 10 (indexed_ids r))" for now r
    using getNewsArticles_top [of 10 now r] by simp
  moreover have "length (List.map_filter f (take 10 xs)) \<le> 10" for f :: "string \<Rightarrow> NewsArticle option" and xs
    using length_map_filter_le [of f "take 10 xs"] by simp
  ultimately show ?thesis
    by (simp add: handleGetLatestNews_def Let_def or_number_def)
qed

theorem latest_default_limit_witness:
  "redis_up env_up \<and>
   handleGetLatestNews env_up (Some 0) sys_one =
     (Inr \<lparr>np_count = 1,
           np_results = [cachedItem (sample_article ''a1'' ''ETH Upgrade Live'' 100)]\<rparr>, sys_one) \<and>
   handleGetLatestNews env_up None sys_one = handleGetLatestNews env_up (Some 0) sys_one"
proof -
  have up: "redis_up env_up" by (simp add: env_up_def)
  have ids: "take 10 (indexed_ids (store sys_one)) = [''a1'']"
    by (simp add: indexed_ids_def sys_one_def store_one_index)
  have got: "getNewsArticle (time_now env_up) (store sys_one) ''a1'' =
      Some (sample_article ''a1'' ''ETH Upgrade Live'' 100)"
    by (simp add: sys_one_def env_up_def store_defs sample_defs)
  from latest_default_limit [of env_up sys_one] up
  have a: "handleGetLatestNews env_up None sys_one = handleGetLatestNews env_up (Some 10) sys_one"
    and b: "handleGetLatestNews env_up (Some 0) sys_one = handleGetLatestNews env_up (Some 10) sys_one"
    and c: "handleGetLatestNews env_up (Some 0) sys_one =
        (Inr \<lparr>np_count = length (List.map_filter (getNewsArticle (time_now env_up) (store sys_one))
                                   (take 10 (indexed_ids (store sys_one)))),
              np_results = map cachedItem (List.map_filter (getNewsArticle (time_now env_up) (store sys_one))
                                   (take 10 (indexed_ids (store sys_one))))\<rparr>, sys_one)"
    by blast+
  have "handleGetLatestNews env_up (Some 0) sys_one =
     (Inr \<lparr>np_count = 1,
           np_results = [cachedItem (sample_article ''a1'' ''ETH Upgrade Live'' 100)]\<rparr>, sys_one)"
    unfolding c ids by (simp add: got)
  with up a b show ?thesis by simp
qed

section \<open>Retrieval with fallback\<close>





lemma storeResults_frame:
  "provider_calls (snd (storeResults e rs s)) = provider_calls s \<and>
   isRunning (snd (storeResults e rs s)) = isRunning s \<and>
   sweeps (snd (storeResults e rs s)) = sweeps s"
proof (induction rs arbitrary: s)
  case Nil
  then show ?case by simp
next
  case (Cons r rs)
  show ?case
  proof (cases "buildArticle e (randomUUID e (uuid_count s)) r")
    case (Inl err)
    with Cons.IH [of s] show ?thesis by (simp add: Let_def)
  next
    case (Inr a)
    let ?s2 = "s\<lparr>uuid_count := Suc (uuid_count s),
                 store := storeNewsArticle (cfg e) (time_now e) a (store s)\<rparr>"
    obtain res s3 where r3: "storeResults e rs ?s2 = (res, s3)" by (cases "storeResults e rs ?s2")
    with Cons.IH [of ?s2] have "provider_calls s3 = provider_calls s"
      "isRunning s3 = isRunning s" "sweeps s3 = sweeps s" by simp_all
    with Inr r3 Cons.IH [of s] show ?thesis
      by (cases res) (simp_all add: Let_def)
  qed
qed










lemmas args_defs = args_hit_def args_miss_def args_zero_def args_empty_def











section \<open>Mutual exclusion of sweeps\<close>

lemma length_queries: "length queries = 32"
  by (simp add: queries_def)

lemma processQuery_frame:
  "isRunning (processQuery e q s) = isRunning s \<and> sweeps (processQuery e q s) = sweeps s"
  using storeResults_frame
  by (auto simp: processQuery_def Let_def split: sum.splits)

lemma handleTargetedSearch_frame:
  "isRunning (snd (handleTargetedSearch e args s)) = isRunning s \<and>
   sweeps (snd (handleTargetedSearch e args s)) = sweeps s"
proof -
  let ?s1 = "s\<lparr>provider_calls := provider_calls s @ [Search (query args) (searchOptions e args)]\<rparr>"
  have "isRunning (snd (storeResults e rs ?s1)) = isRunning s \<and>
        sweeps (snd (storeResults e rs ?s1)) = sweeps s" for rs
    using storeResults_frame [of e rs ?s1] by simp
  then have "\<And>rs res s2. storeResults e rs ?s1 = (res, s2) \<Longrightarrow>
      isRunning s2 = isRunning s \<and> sweeps s2 = sweeps s"
    by (metis snd_conv)
  then show ?thesis
    by (auto simp: handleTargetedSearch_def Let_def
        split: sum.splits error.splits option.splits prod.splits)
qed

lemma handleGetFullContent_frame:
  "isRunning (snd (handleGetFullContent e args s)) = isRunning s \<and>
   sweeps (snd (handleGetFullContent e args s)) = sweeps s"
  by (auto simp: handleGetFullContent_def Let_def split: sum.splits option.splits list.splits)

lemma handleGetLatestNews_frame:
  "isRunning (snd (handleGetLatestNews e l s)) = isRunning s \<and>
   sweeps (snd (handleGetLatestNews e l s)) = sweeps s"
  by (auto simp: handleGetLatestNews_def Let_def)

lemma sweep_inv_init: "sweep_inv init_sys"
  by (simp add: sweep_inv_def init_sys_def)

lemma sweep_inv_cases:
  assumes "sweep_inv s"
  obtains "sweeps s = []" "\<not> isRunning s"
  | pc where "sweeps s = [pc]" "isRunning s" "steps_left pc \<le> 34"
proof (cases "sweeps s")
  case Nil
  with assms that(1) show ?thesis by (simp add: sweep_inv_def)
next
  case (Cons pc rest)
  with assms have "rest = []" by (simp add: sweep_inv_def)
  with Cons assms that(2) show ?thesis by (simp add: sweep_inv_def)
qed

lemma resume_single:
  assumes "sweeps s = [pc]" and "isRunning s"
  shows "(sweeps (step e (Resume 0) s) = [] \<and> \<not> isRunning (step e (Resume 0) s)) \<or>
         (\<exists>pc'. sweeps (step e (Resume 0) s) = [pc'] \<and> isRunning (step e (Resume 0) s) \<and>
                steps_left pc' < steps_left pc)"
proof (cases pc)
  case AtStart
  with assms show ?thesis by (simp add: finish_sweep_def)
next
  case (AtQueries qs)
  with assms show ?thesis
    by (cases qs) (simp_all add: finish_sweep_def processQuery_frame)
qed

lemma resume_idle:
  "sweeps s = [] \<Longrightarrow> step e (Resume i) s = s"
  by simp

lemma sweep_inv_step:
  assumes "sweep_inv s"
  shows "sweep_inv (step e ev s)"
proof (cases ev)
  case Trigger
  from assms show ?thesis
  proof (cases rule: sweep_inv_cases)
    case 1
    with Trigger show ?thesis by (simp add: sweep_inv_def length_queries)
  next
    case (2 pc)
    with Trigger assms show ?thesis by simp
  qed
next
  case (Resume i)
  from assms show ?thesis
  proof (cases rule: sweep_inv_cases)
    case 1
    with Resume assms show ?thesis by simp
  next
    case (2 pc)
    show ?thesis
    proof (cases i)
      case 0
      from resume_single [OF 2(1,2), of e] 2(3) show ?thesis
        unfolding Resume 0 by (auto simp: sweep_inv_def simp del: step.simps)
    next
      case (Suc j)
      with Resume 2 assms show ?thesis by simp
    qed
  qed
next
  case (ToolSearch args)
  with assms handleTargetedSearch_frame [of e args s] show ?thesis by (simp add: sweep_inv_def)
next
  case (ToolExtract args)
  with assms handleGetFullContent_frame [of e args s] show ?thesis by (simp add: sweep_inv_def)
next
  case (ToolLatest l)
  with assms handleGetLatestNews_frame [of e l s] show ?thesis by (simp add: sweep_inv_def)
qed

lemma sweep_inv_run: "sweep_inv s \<Longrightarrow> sweep_inv (run sched s)"
  by (induction sched arbitrary: s) (auto simp: sweep_inv_step)

lemma drain_sweep:
  assumes "(sweeps s = [] \<and> \<not> isRunning s) \<or>
           (\<exists>pc. sweeps s = [pc] \<and> isRunning s \<and> steps_left pc \<le> length es)"
  shows "sweeps (run (map (\<lambda>e. (e, Resume 0)) es) s) = [] \<and>
         \<not> isRunning (run (map (\<lambda>e. (e, Resume 0)) es) s)"
  using assms
proof (induction es arbitrary: s)
  case Nil
  then show ?case by (cases "sweeps s") (auto elim: steps_left.elims)
next
  case (Cons e es)
  from Cons.prems show ?case
  proof
    assume idle: "sweeps s = [] \<and> \<not> isRunning s"
    then have "step e (Resume 0) s = s" by simp
    with idle Cons.IH [of s] show ?thesis by simp
  next
    assume "\<exists>pc. sweeps s = [pc] \<and> isRunning s \<and> steps_left pc \<le> length (e # es)"
    then obtain pc where pc: "sweeps s = [pc]" "isRunning s" "steps_left pc \<le> Suc (length es)"
      by auto
    from resume_single [OF pc(1,2), of e] pc(3)
    have "(sweeps (step e (Resume 0) s) = [] \<and> \<not> isRunning (step e (Resume 0) s)) \<or>
          (\<exists>pc'. sweeps (step e (Resume 0) s) = [pc'] \<and> isRunning (step e (Resume 0) s) \<and>
                 steps_left pc' \<le> length es)"
      by (force simp del: step.simps)
    from Cons.IH [OF this] show ?thesis by simp
  qed
qed

text \<open>
  C4. In every state the process reaches, under any schedule of triggers, resumptions and
  tool calls and whatever the store and the provider answer, at most one activation of
  \<open>fetchLatestNews\<close> is under way, and the flag is set exactly when there is one. A
  trigger that arrives while the flag is set changes nothing at all: no provider call, no
  store write, no activation left behind. And a started sweep, resumed until it is through
  (34 resumptions are enough for the marker and the 32 queries), leaves the flag cleared,
  also when the marker calls fail or queries fail.
\<close>

theorem sweep_exclusion:
  "length (sweeps (run sched init_sys)) \<le> 1 \<and>
   (isRunning (run sched init_sys) \<longleftrightarrow> sweeps (run sched init_sys) \<noteq> []) \<and>
   (isRunning (run sched init_sys) \<longrightarrow> step e Trigger (run sched init_sys) = run sched init_sys) \<and>
   (34 \<le> length es \<longrightarrow>
      \<not> isRunning (run (map (\<lambda>e. (e, Resume 0)) es) (run sched init_sys)) \<and>
      sweeps (run (map (\<lambda>e. (e, Resume 0)) es) (run sched init_sys)) = [])"
proof -
  let ?s = "run sched init_sys"
  have inv: "sweep_inv ?s" using sweep_inv_init by (rule sweep_inv_run)
  then have a: "length (sweeps ?s) \<le> 1" and b: "isRunning ?s \<longleftrightarrow> sweeps ?s \<noteq> []"
    by (simp_all add: sweep_inv_def)
  have c: "step e Trigger ?s = ?s" if "isRunning ?s" using that by simp
  have d: "\<not> isRunning (run (map (\<lambda>e. (e, Resume 0)) es) ?s) \<and>
      sweeps (run (map (\<lambda>e. (e, Resume 0)) es) ?s) = []" if "34 \<le> length es"
  proof -
    from inv have "(sweeps ?s = [] \<and> \<not> isRunning ?s) \<or>
           (\<exists>pc. sweeps ?s = [pc] \<and> isRunning ?s \<and> steps_left pc \<le> length es)"
      using that by (cases rule: sweep_inv_cases) auto
    from drain_sweep [OF this] show ?thesis by simp
  qed
  from a b c d show ?thesis by blast
qed

theorem sweep_exclusion_witness:
  "isRunning (run [(env_up, Trigger)] init_sys) \<and>
   step env_up Trigger (run [(env_up, Trigger)] init_sys) = run [(env_up, Trigger)] init_sys \<and>
   34 \<le> length (replicate 34 env_down) \<and>
   \<not> isRunning (run (map (\<lambda>e. (e, Resume 0)) (replicate 34 env_down))
                   (run [(env_up, Trigger)] init_sys)) \<and>
   provider_calls (run [(env_up, Trigger), (env_up, Trigger)] init_sys) = [] \<and>
   store (run [(env_up, Trigger), (env_up, Trigger)] init_sys) = empty_redis \<and>
   sweeps (run [(env_up, Trigger), (env_up, Trigger)] init_sys) = [AtStart] \<and>
   \<not> isRunning (run [(env_up, Trigger), (env_down, Resume 0)] init_sys) \<and>
   last_fetch (store (run [(env_up, Trigger), (env_down, Resume 0)] init_sys)) = None"
proof -
  have h1: "isRunning (run [(env_up, Trigger)] init_sys)" by (simp add: init_sys_def)
  have h2: "34 \<le> length (replicate 34 env_down)" by simp
  from sweep_exclusion [of "[(env_up, Trigger)]" env_up "replicate 34 env_down"] h1 h2
  have "step env_up Trigger (run [(env_up, Trigger)] init_sys) = run [(env_up, Trigger)] init_sys"
    and "\<not> isRunning (run (map (\<lambda>e. (e, Resume 0)) (replicate 34 env_down))
                   (run [(env_up, Trigger)] init_sys))"
    by blast+
  moreover have "provider_calls (run [(env_up, Trigger), (env_up, Trigger)] init_sys) = []"
    "store (run [(env_up, Trigger), (env_up, Trigger)] init_sys) = empty_redis"
    "sweeps (run [(env_up, Trigger), (env_up, Trigger)] init_sys) = [AtStart]"
    "\<not> isRunning (run [(env_up, Trigger), (env_down, Resume 0)] init_sys)"
    "last_fetch (store (run [(env_up, Trigger), (env_down, Resume 0)] init_sys)) = None"
    by (simp_all add: init_sys_def env_down_def env_up_def finish_sweep_def empty_redis_def)
  ultimately show ?thesis using h1 h2 by blast
qed

end
